theory Spec2Isabelle
  imports Complex_Main
begin

section \<open>Constants of snake.py\<close>

text \<open>
  The embedding follows \<^verbatim>\<open>src/snake.py\<close>. Python's unbounded integers are \<^typ>\<open>int\<close>,
  its floats (frame rates, accumulated time, wall-clock stamps, random draws) are
  \<^typ>\<open>real\<close>. Rendering, audio playback and file input/output have no effect on the
  fields modelled here and are left out.
\<close>

definition WIDTH :: int where "WIDTH = 640"
definition HEIGHT :: int where "HEIGHT = 480"
definition CELL :: int where "CELL = 20"
definition GRID_W :: int where "GRID_W = WIDTH div CELL"
definition GRID_H :: int where "GRID_H = HEIGHT div CELL"

definition GOLD_CHANCE :: real where "GOLD_CHANCE = 1 / 12"
definition GOLD_LIFETIME :: real where "GOLD_LIFETIME = 7"

definition SCORE_NORMAL :: int where "SCORE_NORMAL = 10"
definition SCORE_GOLD :: int where "SCORE_GOLD = 30"

text \<open>
  The difficulty mode is one of the three keys of the dictionaries \<^verbatim>\<open>BASE_FPS\<close> and
  \<^verbatim>\<open>MAX_FPS_CAP\<close> (the choices of the command line and of the menu).
\<close>

datatype mode = Easy | Normal | Hard

fun BASE_FPS :: "mode \<Rightarrow> real" where
  "BASE_FPS Easy = 8"
| "BASE_FPS Normal = 10"
| "BASE_FPS Hard = 12"

fun MAX_FPS_CAP :: "mode \<Rightarrow> real" where
  "MAX_FPS_CAP Easy = 20"
| "MAX_FPS_CAP Normal = 24"
| "MAX_FPS_CAP Hard = 28"

definition SPEED_STEP_EVERY_SCORE :: int where "SPEED_STEP_EVERY_SCORE = 5"
definition SPEED_INCREMENT :: real where "SPEED_INCREMENT = 1 / 2"

section \<open>Utilities\<close>

type_synonym vec2 = "int \<times> int"

definition clamp :: "real \<Rightarrow> real \<Rightarrow> real \<Rightarrow> real" where
  "clamp n lo hi = max lo (min hi n)"

fun mode_name :: "mode \<Rightarrow> string" where
  "mode_name Easy = ''easy''"
| "mode_name Normal = ''normal''"
| "mode_name Hard = ''hard''"

definition key_for_record :: "mode \<Rightarrow> bool \<Rightarrow> string" where
  "key_for_record m wrap = mode_name m @ ''_'' @ (if wrap then ''on'' else ''off'')"

text \<open>The exceptions that the modelled code can raise.\<close>

datatype error = IndexError | ZeroDivisionError

section \<open>Sound flags\<close>

record sfx =
  enabled :: bool
  ok :: bool

text \<open>
  \<^verbatim>\<open>SFX.__init__\<close>: \<open>mixer_ok\<close> says whether \<^verbatim>\<open>pygame.mixer.init()\<close> succeeds.
\<close>

definition SFX_init :: "bool \<Rightarrow> bool \<Rightarrow> sfx" where
  "SFX_init en mixer_ok =
     (if \<not> en then \<lparr>enabled = en, ok = False\<rparr>
      else if mixer_ok then \<lparr>enabled = en, ok = True\<rparr>
      else \<lparr>enabled = False, ok = False\<rparr>)"

definition toggle :: "sfx \<Rightarrow> sfx" where
  "toggle s = s\<lparr>enabled := (\<not> enabled s \<and> ok s)\<rparr>"

section \<open>The snake\<close>

definition UP :: vec2 where "UP = (0, -1)"
definition DOWN :: vec2 where "DOWN = (0, 1)"
definition LEFT :: vec2 where "LEFT = (-1, 0)"
definition RIGHT :: vec2 where "RIGHT = (1, 0)"

definition opposite :: "vec2 \<Rightarrow> vec2 \<Rightarrow> bool" where
  "opposite a b = (fst a = - fst b \<and> snd a = - snd b)"

text \<open>The deque \<^verbatim>\<open>body\<close> is a list; index 0, the head, is the left end.\<close>

record snake =
  body :: "vec2 list"
  dir :: vec2

text \<open>
  \<^verbatim>\<open>Snake.__init__\<close>: every cell \<^verbatim>\<open>(start[0] - i, start[1])\<close> is pushed with
  \<^verbatim>\<open>appendleft\<close>, for \<open>i\<close> from 0 upwards.
\<close>

definition Snake_init :: "vec2 \<Rightarrow> nat \<Rightarrow> vec2 \<Rightarrow> snake" where
  "Snake_init start len direction =
     \<lparr>body = fold (\<lambda>i b. (fst start - int i, snd start) # b) [0..<len] [],
      dir = direction\<rparr>"

text \<open>The property \<^verbatim>\<open>head\<close> is \<^verbatim>\<open>body[0]\<close>, an IndexError on the empty deque.\<close>

definition head :: "snake \<Rightarrow> error + vec2" where
  "head s = (case body s of [] \<Rightarrow> Inl IndexError | c # _ \<Rightarrow> Inr c)"

definition turn :: "vec2 \<Rightarrow> snake \<Rightarrow> snake" where
  "turn newdir s = (if opposite (dir s) newdir then s else s\<lparr>dir := newdir\<rparr>)"

definition next_head :: "snake \<Rightarrow> error + vec2" where
  "next_head s =
     (case head s of
        Inl e \<Rightarrow> Inl e
      | Inr (x, y) \<Rightarrow> (case dir s of (dx, dy) \<Rightarrow> Inr (x + dx, y + dy)))"

text \<open>\<^verbatim>\<open>pop()\<close> drops the right end, which exists after \<^verbatim>\<open>appendleft\<close>.\<close>

definition move :: "bool \<Rightarrow> snake \<Rightarrow> error + snake" where
  "move grow s =
     (case next_head s of
        Inl e \<Rightarrow> Inl e
      | Inr c \<Rightarrow>
          (let b = c # body s
           in Inr (s\<lparr>body := (if \<not> grow then butlast b else b)\<rparr>)))"

definition hits_self :: "snake \<Rightarrow> error + bool" where
  "hits_self s =
     (case head s of
        Inl e \<Rightarrow> Inl e
      | Inr c \<Rightarrow> Inr (c \<in> set (tl (body s))))"

definition occupies :: "snake \<Rightarrow> vec2 set" where
  "occupies s = set (body s)"

section \<open>Food and the game object\<close>

datatype food_kind = KNormal | KGold

record food =
  pos :: vec2
  kind :: food_kind
  spawn_time :: real

datatype game_state = Menu | Playing | Paused | GameOver

text \<open>
  The fields of \<^verbatim>\<open>Game\<close> that the logic reads or writes. The dictionary
  \<^verbatim>\<open>records\<close> maps a key of \<open>key_for_record\<close> to an integer score.
\<close>

record game =
  mode :: mode
  wrap_on :: bool
  state :: game_state
  sound :: sfx
  records :: "string \<rightharpoonup> int"
  snake :: snake
  score :: int
  current_fps :: real
  logic_acc :: real
  game_over_reason :: string
  food :: "food option"
  best :: int
  menu_index :: int

text \<open>\<^verbatim>\<open>records.get(key, 0)\<close>\<close>

definition records_get :: "(string \<rightharpoonup> int) \<Rightarrow> string \<Rightarrow> int" where
  "records_get r k = (case r k of None \<Rightarrow> 0 | Some v \<Rightarrow> v)"

text \<open>
  What the calls of \<^verbatim>\<open>random.choice\<close>, \<^verbatim>\<open>random.random\<close> and \<^verbatim>\<open>time.time\<close>
  inside one call of \<^verbatim>\<open>spawn_food\<close> return, when they are made: the index that
  \<^verbatim>\<open>random.choice\<close> draws is \<open>rnd_choice\<close> reduced modulo the number of free cells.
\<close>

record rnd =
  rnd_choice :: nat
  rnd_random :: real
  rnd_time :: real

definition free_cells :: "vec2 set \<Rightarrow> vec2 list" where
  "free_cells occ =
     concat (map (\<lambda>x. concat (map (\<lambda>y. if (x, y) \<notin> occ then [(x, y)] else [])
                                  [0..GRID_H - 1]))
                 [0..GRID_W - 1])"

definition spawn_food :: "bool \<Rightarrow> rnd \<Rightarrow> game \<Rightarrow> game" where
  "spawn_food force_normal r g =
     (let occ = occupies (snake g);
          free = free_cells occ
      in if free = [] then g
         else
           (let p = free ! (rnd_choice r mod length free)
            in if \<not> force_normal \<and> rnd_random r < GOLD_CHANCE \<and> food g = None
               then g\<lparr>food := Some \<lparr>pos = p, kind = KGold, spawn_time = rnd_time r\<rparr>\<rparr>
               else g\<lparr>food := Some \<lparr>pos = p, kind = KNormal, spawn_time = 0\<rparr>\<rparr>))"

definition reset_run :: "bool \<Rightarrow> rnd \<Rightarrow> game \<Rightarrow> game" where
  "reset_run full_reset r g =
     (let cx = GRID_W div 2;
          cy = GRID_H div 2;
          g1 = g\<lparr>snake := Snake_init (cx, cy) 3 RIGHT,
                 score := 0,
                 current_fps := BASE_FPS (mode g),
                 logic_acc := 0,
                 game_over_reason := [],
                 food := None\<rparr>;
          g2 = spawn_food True r g1
      in g2\<lparr>best := records_get (records g2) (key_for_record (mode g2) (wrap_on g2))\<rparr>)"

text \<open>
  \<^verbatim>\<open>to_game_over\<close>: the sound and the write of the save file leave the fields alone.
\<close>

definition to_game_over :: "game \<Rightarrow> game" where
  "to_game_over g = g\<lparr>state := GameOver\<rparr>"

section \<open>One logic tick\<close>

text \<open>
  What the environment returns during one call of \<^verbatim>\<open>step_logic\<close>: \<open>now\<close> is the
  value of \<^verbatim>\<open>time.time()\<close>, \<open>gold_roll\<close> the value of the call of
  \<^verbatim>\<open>random.random()\<close> in \<^verbatim>\<open>step_logic\<close> itself, \<open>spawn_a\<close> and \<open>spawn_b\<close> the draws
  of the first and of the second call of \<^verbatim>\<open>spawn_food\<close>.
\<close>

record tick_in =
  now :: real
  gold_roll :: real
  spawn_a :: rnd
  spawn_b :: rnd

text \<open>The expression assigned to \<^verbatim>\<open>current_fps\<close> at the end of \<^verbatim>\<open>step_logic\<close>.\<close>

definition tick_rate :: "mode \<Rightarrow> int \<Rightarrow> real" where
  "tick_rate m sc =
     clamp (BASE_FPS m + real_of_int (sc div SPEED_STEP_EVERY_SCORE) * SPEED_INCREMENT)
           (BASE_FPS m) (MAX_FPS_CAP m)"

text \<open>
  The block of \<^verbatim>\<open>step_logic\<close> after the self-collision test that respawns the food
  (\<^verbatim>\<open>ate_kind\<close> is \<open>None\<close> when nothing was eaten).
\<close>

definition step_logic_food :: "tick_in \<Rightarrow> food_kind option \<Rightarrow> game \<Rightarrow> game" where
  "step_logic_food ti ate_kind g =
     (if ate_kind \<noteq> None then
        (if ate_kind = Some KNormal \<and> gold_roll ti < GOLD_CHANCE then
           (let g1 = spawn_food False (spawn_a ti) g
            in case food g1 of
                 None \<Rightarrow> spawn_food True (spawn_b ti) g1
               | Some f \<Rightarrow>
                   if kind f = KGold then g1\<lparr>food := Some (f\<lparr>spawn_time := now ti\<rparr>)\<rparr>
                   else spawn_food True (spawn_b ti) g1)
         else spawn_food True (spawn_a ti) g)
      else
        (case food g of
           None \<Rightarrow> g
         | Some f \<Rightarrow>
             if kind f = KGold then
               (if now ti - spawn_time f > GOLD_LIFETIME
                then spawn_food True (spawn_a ti) g else g)
             else g))"

text \<open>The last two blocks of \<^verbatim>\<open>step_logic\<close>: the speed, then the live record.\<close>

definition step_logic_speed :: "game \<Rightarrow> game" where
  "step_logic_speed g =
     (let g1 = g\<lparr>current_fps := tick_rate (mode g) (score g)\<rparr>
      in if score g1 > best g1 then
           (let g2 = g1\<lparr>best := score g1\<rparr>
            in g2\<lparr>records :=
                    (records g2)(key_for_record (mode g2) (wrap_on g2) \<mapsto> best g2)\<rparr>)
         else g1)"

definition step_logic :: "tick_in \<Rightarrow> game \<Rightarrow> error + game" where
  "step_logic ti g =
     (case next_head (snake g) of
        Inl e \<Rightarrow> Inl e
      | Inr (nx0, ny0) \<Rightarrow>
          (let nx = (if wrap_on g then nx0 mod GRID_W else nx0);
               ny = (if wrap_on g then ny0 mod GRID_H else ny0)
           in if \<not> wrap_on g \<and> (nx < 0 \<or> nx \<ge> GRID_W \<or> ny < 0 \<or> ny \<ge> GRID_H)
              then Inr (to_game_over (g\<lparr>game_over_reason := ''wall''\<rparr>))
              else
                (let eats = (case food g of None \<Rightarrow> False | Some f \<Rightarrow> (nx, ny) = pos f);
                     gold = (case food g of None \<Rightarrow> False | Some f \<Rightarrow> kind f = KGold);
                     g1 = (if eats
                           then g\<lparr>score := score g + (if gold then SCORE_GOLD else SCORE_NORMAL)\<rparr>
                           else g);
                     grow = eats;
                     ate_kind = (if eats then Some (if gold then KGold else KNormal) else None)
                 in case move grow (snake g1) of
                      Inl e \<Rightarrow> Inl e
                    | Inr s1 \<Rightarrow>
                        (case (if ate_kind = Some KGold then move True s1 else Inr s1) of
                           Inl e \<Rightarrow> Inl e
                         | Inr s2 \<Rightarrow>
                             (let g2 = g1\<lparr>snake := s2\<rparr>
                              in case hits_self (snake g2) of
                                   Inl e \<Rightarrow> Inl e
                                 | Inr True \<Rightarrow>
                                     Inr (to_game_over (g2\<lparr>game_over_reason := ''self''\<rparr>))
                                 | Inr False \<Rightarrow>
                                     Inr (step_logic_speed (step_logic_food ti ate_kind g2)))))))"

section \<open>Events and the four loops\<close>

datatype key =
  K_UP | K_DOWN | K_LEFT | K_RIGHT | K_w | K_s | K_a | K_d
  | K_p | K_r | K_m | K_ESCAPE | K_RETURN | K_KP_ENTER | K_other

datatype event = QUIT | KEYDOWN key | OTHER

definition handle_turn_keys :: "key \<Rightarrow> game \<Rightarrow> game" where
  "handle_turn_keys k g =
     (if k = K_UP \<or> k = K_w then g\<lparr>snake := turn UP (snake g)\<rparr>
      else if k = K_DOWN \<or> k = K_s then g\<lparr>snake := turn DOWN (snake g)\<rparr>
      else if k = K_LEFT \<or> k = K_a then g\<lparr>snake := turn LEFT (snake g)\<rparr>
      else if k = K_RIGHT \<or> k = K_d then g\<lparr>snake := turn RIGHT (snake g)\<rparr>
      else g)"

text \<open>
  One pass of the \<^verbatim>\<open>run\<close> loop receives: the milliseconds that \<^verbatim>\<open>clock.tick(60)\<close>
  returns, the queued events, the draws of the \<^verbatim>\<open>reset_run\<close> that the event at
  position \<open>i\<close> may trigger, and the draws of the \<open>k\<close>-th logic tick of the frame.
\<close>

record frame_in =
  tick_ms :: nat
  events :: "event list"
  reset_draws :: "nat \<Rightarrow> rnd"
  tick_draws :: "nat \<Rightarrow> tick_in"

text \<open>
  An event loop either leaves its function with \<^verbatim>\<open>return b\<close> or runs to its end.
\<close>

datatype flow = Return bool game | Fallthrough game

fun play_events :: "(nat \<Rightarrow> rnd) \<Rightarrow> nat \<Rightarrow> event list \<Rightarrow> game \<Rightarrow> flow" where
  "play_events rs i [] g = Fallthrough g"
| "play_events rs i (QUIT # es) g = Return False g"
| "play_events rs i (KEYDOWN k # es) g =
     (if k = K_ESCAPE then Return True (g\<lparr>state := Menu\<rparr>)
      else if k = K_p then Return True (g\<lparr>state := Paused\<rparr>)
      else if k = K_r then play_events rs (Suc i) es (reset_run False (rs i) g)
      else if k = K_m then play_events rs (Suc i) es (g\<lparr>sound := toggle (sound g)\<rparr>)
      else play_events rs (Suc i) es (handle_turn_keys k g))"
| "play_events rs i (OTHER # es) g = play_events rs (Suc i) es g"

text \<open>
  The \<^verbatim>\<open>while\<close> loop of \<^verbatim>\<open>play_loop\<close>; \<open>step\<close> is the local variable assigned
  before the loop, \<open>k\<close> counts the ticks of the frame. \<open>None\<close> is a loop that never ends.
\<close>

partial_function (option) drain ::
  "real \<Rightarrow> (nat \<Rightarrow> tick_in) \<Rightarrow> nat \<Rightarrow> game \<Rightarrow> (error + game) option" where
  "drain step tks k g =
     (if logic_acc g \<ge> step then
        (case step_logic (tks k) (g\<lparr>logic_acc := logic_acc g - step\<rparr>) of
           Inl e \<Rightarrow> Some (Inl e)
         | Inr g' \<Rightarrow> drain step tks (Suc k) g')
      else Some (Inr g))"

definition play_loop :: "frame_in \<Rightarrow> game \<Rightarrow> (error + bool \<times> game) option" where
  "play_loop fi g =
     (let dt = real (tick_ms fi) / 1000
      in case play_events (reset_draws fi) 0 (events fi) g of
           Return b g' \<Rightarrow> Some (Inr (b, g'))
         | Fallthrough g1 \<Rightarrow>
             (let g2 = g1\<lparr>logic_acc := logic_acc g1 + dt\<rparr>
              in if current_fps g2 = 0 then Some (Inl ZeroDivisionError)
                 else
                   (let step = 1 / current_fps g2
                    in case drain step (tick_draws fi) 0 g2 of
                         None \<Rightarrow> None
                       | Some (Inl e) \<Rightarrow> Some (Inl e)
                       | Some (Inr g3) \<Rightarrow> Some (Inr (True, g3)))))"

fun pause_events :: "event list \<Rightarrow> game \<Rightarrow> flow" where
  "pause_events [] g = Fallthrough g"
| "pause_events (QUIT # es) g = Return False g"
| "pause_events (KEYDOWN k # es) g =
     (if k = K_ESCAPE \<or> k = K_p then Return True (g\<lparr>state := Playing\<rparr>)
      else if k = K_m then pause_events es (g\<lparr>sound := toggle (sound g)\<rparr>)
      else pause_events es g)"
| "pause_events (OTHER # es) g = pause_events es g"

definition pause_loop :: "frame_in \<Rightarrow> game \<Rightarrow> bool \<times> game" where
  "pause_loop fi g =
     (case pause_events (events fi) g of
        Return b g' \<Rightarrow> (b, g')
      | Fallthrough g' \<Rightarrow> (True, g'))"

fun gameover_events :: "(nat \<Rightarrow> rnd) \<Rightarrow> nat \<Rightarrow> event list \<Rightarrow> game \<Rightarrow> flow" where
  "gameover_events rs i [] g = Fallthrough g"
| "gameover_events rs i (QUIT # es) g = Return False g"
| "gameover_events rs i (KEYDOWN k # es) g =
     (if k = K_ESCAPE then Return True (g\<lparr>state := Menu\<rparr>)
      else if k = K_r then Return True ((reset_run False (rs i) g)\<lparr>state := Playing\<rparr>)
      else gameover_events rs (Suc i) es g)"
| "gameover_events rs i (OTHER # es) g = gameover_events rs (Suc i) es g"

definition gameover_loop :: "frame_in \<Rightarrow> game \<Rightarrow> bool \<times> game" where
  "gameover_loop fi g =
     (case gameover_events (reset_draws fi) 0 (events fi) g of
        Return b g' \<Rightarrow> (b, g')
      | Fallthrough g' \<Rightarrow> (True, g'))"

section \<open>The menu\<close>

definition menu_items :: "(string \<times> string list option) list" where
  "menu_items =
     [(''Start'', None),
      (''Mode'', Some [''easy'', ''normal'', ''hard'']),
      (''Wrap'', Some [''off'', ''on'']),
      (''Sound'', Some [''off'', ''on'']),
      (''Quit'', None)]"

text \<open>
  The subscript \<^verbatim>\<open>menu_items[menu_index]\<close>: positions \<open>-len\<close> to \<open>-1\<close> address the list
  from its right end, anything outside \<open>-len\<close> to \<open>len - 1\<close> raises.
\<close>

definition py_index :: "'a list \<Rightarrow> int \<Rightarrow> error + 'a" where
  "py_index xs i =
     (if 0 \<le> i \<and> i < int (length xs) then Inr (xs ! nat i)
      else if - int (length xs) \<le> i \<and> i < 0 then Inr (xs ! nat (int (length xs) + i))
      else Inl IndexError)"

text \<open>
  The position of a mode in the value list of the menu item \<^verbatim>\<open>Mode\<close>, and the mode
  at a position of that list.
\<close>

fun mode_index :: "mode \<Rightarrow> int" where
  "mode_index Easy = 0"
| "mode_index Normal = 1"
| "mode_index Hard = 2"

definition mode_at :: "int \<Rightarrow> mode" where
  "mode_at i = (if i = 0 then Easy else if i = 1 then Normal else Hard)"

definition menu_change_value :: "bool \<Rightarrow> game \<Rightarrow> error + game" where
  "menu_change_value forward g =
     (case py_index menu_items (menu_index g) of
        Inl e \<Rightarrow> Inl e
      | Inr (label, vals) \<Rightarrow>
          if vals = None \<or> vals = Some [] then Inr g
          else if label = ''Mode'' then
            (let idx = (mode_index (mode g) + (if forward then 1 else -1)) mod 3;
                 g1 = g\<lparr>mode := mode_at idx\<rparr>;
                 g2 = g1\<lparr>current_fps := BASE_FPS (mode g1)\<rparr>
             in Inr (g2\<lparr>best :=
                  records_get (records g2) (key_for_record (mode g2) (wrap_on g2))\<rparr>))
          else if label = ''Wrap'' then
            (let idx = ((if wrap_on g then 1 else 0) + (if forward then 1 else -1)) mod (2::int);
                 g1 = g\<lparr>wrap_on := (idx = 1)\<rparr>
             in Inr (g1\<lparr>best :=
                  records_get (records g1) (key_for_record (mode g1) (wrap_on g1))\<rparr>))
          else if label = ''Sound'' then
            (let on = (enabled (sound g) \<and> ok (sound g));
                 idx = ((if on then 1 else 0) + (if forward then 1 else -1)) mod (2::int);
                 desired_on = (idx = 1)
             in if desired_on \<and> \<not> on
                then Inr (g\<lparr>sound := (sound g)\<lparr>enabled := True, ok := True\<rparr>\<rparr>)
                else if \<not> desired_on
                then Inr (g\<lparr>sound := (sound g)\<lparr>enabled := False\<rparr>\<rparr>)
                else Inr g)
          else Inr g)"

fun menu_events :: "(nat \<Rightarrow> rnd) \<Rightarrow> nat \<Rightarrow> event list \<Rightarrow> game \<Rightarrow> error + flow" where
  "menu_events rs i [] g = Inr (Fallthrough g)"
| "menu_events rs i (QUIT # es) g = Inr (Return False g)"
| "menu_events rs i (KEYDOWN k # es) g =
     (if k = K_ESCAPE then Inr (Return False g)
      else if k = K_UP then
        menu_events rs (Suc i) es
          (g\<lparr>menu_index := (menu_index g - 1) mod int (length menu_items)\<rparr>)
      else if k = K_DOWN then
        menu_events rs (Suc i) es
          (g\<lparr>menu_index := (menu_index g + 1) mod int (length menu_items)\<rparr>)
      else if k = K_LEFT \<or> k = K_RIGHT then
        (case menu_change_value (k = K_RIGHT) g of
           Inl e \<Rightarrow> Inl e
         | Inr g' \<Rightarrow> menu_events rs (Suc i) es g')
      else if k = K_RETURN \<or> k = K_KP_ENTER then
        (case py_index menu_items (menu_index g) of
           Inl e \<Rightarrow> Inl e
         | Inr (label, vals) \<Rightarrow>
             if label = ''Start''
             then Inr (Return True ((reset_run True (rs i) g)\<lparr>state := Playing\<rparr>))
             else if label = ''Quit'' then Inr (Return False g)
             else menu_events rs (Suc i) es g)
      else menu_events rs (Suc i) es g)"
| "menu_events rs i (OTHER # es) g = menu_events rs (Suc i) es g"

definition menu_loop :: "frame_in \<Rightarrow> game \<Rightarrow> error + bool \<times> game" where
  "menu_loop fi g =
     (case menu_events (reset_draws fi) 0 (events fi) g of
        Inl e \<Rightarrow> Inl e
      | Inr (Return b g') \<Rightarrow> Inr (b, g')
      | Inr (Fallthrough g') \<Rightarrow> Inr (True, g'))"

section \<open>The run loop\<close>

text \<open>
  \<^verbatim>\<open>Game.__init__\<close>: \<open>cfg_sound\<close> and \<open>recs\<close> are the entries \<^verbatim>\<open>sound\<close> and
  \<^verbatim>\<open>records\<close> of the loaded configuration. The attributes that do not exist before
  the call of \<^verbatim>\<open>reset_run\<close> (snake, score, tick rate, accumulator, reason, food, best)
  are all assigned by it; the values they get here are never read.
\<close>

definition Game_init :: "mode \<Rightarrow> bool \<Rightarrow> bool \<Rightarrow> bool \<Rightarrow> (string \<rightharpoonup> int) \<Rightarrow> rnd \<Rightarrow> game" where
  "Game_init m wrap cfg_sound mixer_ok recs r =
     (let g = \<lparr>mode = m, wrap_on = wrap, state = Menu,
               sound = SFX_init cfg_sound mixer_ok, records = recs,
               snake = \<lparr>body = [], dir = RIGHT\<rparr>, score = 0, current_fps = 0,
               logic_acc = 0, game_over_reason = [], food = None, best = 0,
               menu_index = 0\<rparr>
      in (reset_run True r g)\<lparr>menu_index := 0\<rparr>)"

text \<open>One pass of the \<^verbatim>\<open>while True\<close> loop of \<^verbatim>\<open>run\<close>: the loop of the current state.\<close>

definition run_iter :: "frame_in \<Rightarrow> game \<Rightarrow> (error + bool \<times> game) option" where
  "run_iter fi g =
     (case state g of
        Menu \<Rightarrow> Some (menu_loop fi g)
      | Playing \<Rightarrow> play_loop fi g
      | Paused \<Rightarrow> Some (Inr (pause_loop fi g))
      | GameOver \<Rightarrow> Some (Inr (gameover_loop fi g)))"

text \<open>
  \<^verbatim>\<open>run\<close> over the given frames: it stops at the first pass that returns \<open>False\<close>.
\<close>

fun run_frames :: "frame_in list \<Rightarrow> game \<Rightarrow> (error + game) option" where
  "run_frames [] g = Some (Inr g)"
| "run_frames (fi # fis) g =
     (case run_iter fi g of
        None \<Rightarrow> None
      | Some (Inl e) \<Rightarrow> Some (Inl e)
      | Some (Inr (b, g')) \<Rightarrow> if b then run_frames fis g' else Some (Inr g'))"

text \<open>The states that the program can be in between two passes of \<^verbatim>\<open>run\<close>.\<close>

inductive reachable :: "game \<Rightarrow> bool" where
  init: "reachable (Game_init m wrap cfg_sound mixer_ok recs r)"
| frame: "reachable g \<Longrightarrow> run_iter fi g = Some (Inr (True, g')) \<Longrightarrow> reachable g'"

section \<open>The drain loop as the specification words it\<close>


section \<open>Predicates on states\<close>

text \<open>These predicates are not in the source; the proofs below use them as invariants.\<close>

text \<open>The current food, when there is one, is a normal one.\<close>

definition food_is_normal :: "game \<Rightarrow> bool" where
  "food_is_normal g = (case food g of None \<Rightarrow> True | Some f \<Rightarrow> kind f = KNormal)"

text \<open>The key of the table of records for the current mode and wrap setting.\<close>

definition active_key :: "game \<Rightarrow> string" where
  "active_key g = key_for_record (mode g) (wrap_on g)"

text \<open>The best score is the stored record of the active key.\<close>

definition best_is_record :: "game \<Rightarrow> bool" where
  "best_is_record g = (best g = records_get (records g) (active_key g))"

text \<open>
  From one table of records to a later one every entry is either the same or replaced by
  a score strictly above what \<^verbatim>\<open>records.get(key, 0)\<close> gave before.
\<close>

definition records_le :: "(string \<rightharpoonup> int) \<Rightarrow> (string \<rightharpoonup> int) \<Rightarrow> bool" where
  "records_le r r' = (\<forall>k. r' k = r k \<or> (\<exists>s. r' k = Some s \<and> records_get r k < s))"

text \<open>
  What the ticks of one frame keep, relative to the records \<open>r0\<close>, the mode \<open>m0\<close> and
  the wrap setting \<open>w0\<close> at the start of the frame.
\<close>

definition tick_keeps :: "(string \<rightharpoonup> int) \<Rightarrow> mode \<Rightarrow> bool \<Rightarrow> game \<Rightarrow> bool" where
  "tick_keeps r0 m0 w0 g =
     (best_is_record g \<and> mode g = m0 \<and> wrap_on g = w0 \<and> records_le r0 (records g)
      \<and> (\<forall>k. records g k \<noteq> r0 k \<longrightarrow> k = key_for_record m0 w0))"

text \<open>An event loop leaves the table alone and keeps the best score tied to it.\<close>

definition same_records :: "game \<Rightarrow> game \<Rightarrow> bool" where
  "same_records g g' = (records g' = records g \<and> (best_is_record g \<longrightarrow> best_is_record g'))"

text \<open>
  What a pass of the run loop needs in order to return: a snake with a head, a positive
  tick rate and a menu index inside the list of menu items.
\<close>

definition run_ready :: "game \<Rightarrow> bool" where
  "run_ready g =
     (body (snake g) \<noteq> [] \<and> 0 < current_fps g \<and> 0 \<le> menu_index g
      \<and> menu_index g < int (length menu_items))"

section \<open>Concrete states and inputs\<close>

text \<open>
  A state in the middle of a run in mode normal without wrap: a snake of three cells
  moving right with its head at (16, 12), and a normal food in the next cell.
\<close>

definition example_game :: game where
  "example_game =
     \<lparr>mode = Normal, wrap_on = False, state = Playing,
      sound = \<lparr>enabled = False, ok = False\<rparr>, records = Map.empty,
      snake = \<lparr>body = [(16, 12), (15, 12), (14, 12)], dir = RIGHT\<rparr>,
      score = 0, current_fps = 10, logic_acc = 0, game_over_reason = [],
      food = Some \<lparr>pos = (17, 12), kind = KNormal, spawn_time = 0\<rparr>,
      best = 0, menu_index = 0\<rparr>"

definition example_rnd :: rnd where
  "example_rnd = \<lparr>rnd_choice = 0, rnd_random = 0, rnd_time = 5\<rparr>"

definition example_tick :: tick_in where
  "example_tick = \<lparr>now = 5, gold_roll = 0, spawn_a = example_rnd, spawn_b = example_rnd\<rparr>"

text \<open>The same snake in front of the right wall.\<close>

definition edge_snake :: snake where
  "edge_snake = \<lparr>body = [(31, 12), (30, 12), (29, 12)], dir = RIGHT\<rparr>"


text \<open>
  A process started in mode normal without wrap and an empty table of records. The draw
  347 of \<^verbatim>\<open>random.choice\<close> puts the first food at (14, 11), right above the head
  (14, 12) of the new snake.
\<close>

definition start_rnd :: rnd where
  "start_rnd = \<lparr>rnd_choice = 347, rnd_random = 0, rnd_time = 0\<rparr>"

definition start_game :: game where
  "start_game = Game_init Normal False False False Map.empty start_rnd"

definition start_frame :: frame_in where
  "start_frame = \<lparr>tick_ms = 16, events = [KEYDOWN K_RETURN],
                   reset_draws = (\<lambda>_. start_rnd), tick_draws = (\<lambda>_. example_tick)\<rparr>"

definition eat_frame :: frame_in where
  "eat_frame = \<lparr>tick_ms = 100, events = [KEYDOWN K_UP],
                 reset_draws = (\<lambda>_. start_rnd), tick_draws = (\<lambda>_. example_tick)\<rparr>"

text \<open>The state after \<^verbatim>\<open>Game.__init__\<close> in that process.\<close>

definition started_game :: game where
  "started_game =
     \<lparr>mode = Normal, wrap_on = False, state = Menu,
      sound = \<lparr>enabled = False, ok = False\<rparr>, records = Map.empty,
      snake = \<lparr>body = [(14, 12), (15, 12), (16, 12)], dir = RIGHT\<rparr>,
      score = 0, current_fps = 10, logic_acc = 0, game_over_reason = [],
      food = Some \<lparr>pos = (14, 11), kind = KNormal, spawn_time = 0\<rparr>,
      best = 0, menu_index = 0\<rparr>"

text \<open>The state after Start in the menu, then a frame with the key Up and one tick.\<close>

definition fed_game :: game where
  "fed_game =
     started_game
       \<lparr>state := Playing,
        snake := \<lparr>body = [(14, 11), (14, 12), (15, 12), (16, 12)], dir = UP\<rparr>,
        score := 10, current_fps := 11, best := 10,
        records := [''normal_off'' \<mapsto> 10],
        food := Some \<lparr>pos = (0, 0), kind = KNormal, spawn_time = 0\<rparr>\<rparr>"




section \<open>Basic facts\<close>

lemma GRID_W_val: "GRID_W = 32"
  by (simp add: GRID_W_def WIDTH_def CELL_def)

lemma GRID_H_val: "GRID_H = 24"
  by (simp add: GRID_H_def HEIGHT_def CELL_def)

text \<open>\<open>spawn_food\<close> and the food block of a tick write the field \<open>food\<close> only.\<close>

lemma spawn_food_only_food: "\<exists>fo. spawn_food fn r g = g\<lparr>food := fo\<rparr>"
proof (cases "free_cells (occupies (snake g)) = []")
  case True
  then have "spawn_food fn r g = g\<lparr>food := food g\<rparr>" by (simp add: spawn_food_def)
  then show ?thesis by blast
next
  case False
  then show ?thesis by (auto simp: spawn_food_def Let_def)
qed

lemma step_logic_food_only_food: "\<exists>fo. step_logic_food ti ak g = g\<lparr>food := fo\<rparr>"
proof -
  have keep: "\<exists>fo. g = g\<lparr>food := fo\<rparr>"
    by (rule exI [of _ "food g"]) simp
  have one: "\<And>fn r. \<exists>fo. spawn_food fn r g = g\<lparr>food := fo\<rparr>"
    by (rule spawn_food_only_food)
  have two: "\<exists>fo. spawn_food True rb (spawn_food False ra g) = g\<lparr>food := fo\<rparr>" for ra rb
  proof -
    obtain f1 where a: "spawn_food False ra g = g\<lparr>food := f1\<rparr>"
      using spawn_food_only_food by blast
    obtain f2 where b: "spawn_food True rb (g\<lparr>food := f1\<rparr>) = g\<lparr>food := f1\<rparr>\<lparr>food := f2\<rparr>"
      using spawn_food_only_food by blast
    show ?thesis unfolding a b by (rule exI [of _ f2]) simp
  qed
  have three: "\<exists>fo. (spawn_food False ra g)\<lparr>food := x\<rparr> = g\<lparr>food := fo\<rparr>" for ra x
  proof -
    obtain f1 where a: "spawn_food False ra g = g\<lparr>food := f1\<rparr>"
      using spawn_food_only_food by blast
    show ?thesis unfolding a by (rule exI [of _ x]) simp
  qed
  show ?thesis
    unfolding step_logic_food_def Let_def
    using keep one two three by (simp split: option.split)
qed

lemma step_logic_speed_fields:
  "score (step_logic_speed g) = score g"
  "snake (step_logic_speed g) = snake g"
  "food (step_logic_speed g) = food g"
  "mode (step_logic_speed g) = mode g"
  "wrap_on (step_logic_speed g) = wrap_on g"
  "state (step_logic_speed g) = state g"
  "logic_acc (step_logic_speed g) = logic_acc g"
  "current_fps (step_logic_speed g) = tick_rate (mode g) (score g)"
  by (simp_all add: step_logic_speed_def Let_def)

lemma step_logic_food_fields:
  "score (step_logic_food ti ak g) = score g"
  "snake (step_logic_food ti ak g) = snake g"
  "mode (step_logic_food ti ak g) = mode g"
  "wrap_on (step_logic_food ti ak g) = wrap_on g"
  "state (step_logic_food ti ak g) = state g"
  "logic_acc (step_logic_food ti ak g) = logic_acc g"
  "current_fps (step_logic_food ti ak g) = current_fps g"
  "best (step_logic_food ti ak g) = best g"
  "records (step_logic_food ti ak g) = records g"
proof -
  obtain fo where "step_logic_food ti ak g = g\<lparr>food := fo\<rparr>"
    using step_logic_food_only_food by blast
  then show "score (step_logic_food ti ak g) = score g"
    "snake (step_logic_food ti ak g) = snake g"
    "mode (step_logic_food ti ak g) = mode g"
    "wrap_on (step_logic_food ti ak g) = wrap_on g"
    "state (step_logic_food ti ak g) = state g"
    "logic_acc (step_logic_food ti ak g) = logic_acc g"
    "current_fps (step_logic_food ti ak g) = current_fps g"
    "best (step_logic_food ti ak g) = best g"
    "records (step_logic_food ti ak g) = records g"
    by simp_all
qed

text \<open>The three ways in which a tick returns.\<close>

lemma step_logic_cases:
  assumes "step_logic ti g = Inr g'"
  shows "g' = to_game_over (g\<lparr>game_over_reason := ''wall''\<rparr>)
         \<or> (\<exists>sc s. g' = to_game_over (g\<lparr>score := sc, snake := s, game_over_reason := ''self''\<rparr>))
         \<or> (\<exists>sc s ak. g' = step_logic_speed (step_logic_food ti ak (g\<lparr>score := sc, snake := s\<rparr>)))"
proof -
  have upd: "g = g\<lparr>score := score g\<rparr>" by simp
  show ?thesis
    using assms
    unfolding step_logic_def Let_def
    apply (simp split: sum.splits prod.splits if_splits bool.splits)
    apply (metis upd)+
    done
qed


section \<open>The tick rate\<close>


lemma tick_rate_bounds: "BASE_FPS m \<le> tick_rate m s \<and> tick_rate m s \<le> MAX_FPS_CAP m"
  by (cases m) (simp_all add: tick_rate_def clamp_def)


section \<open>Direction changes\<close>

text \<open>
  C8. For every snake, \<open>turn\<close> called with the exact opposite of the current direction
  (both components negated) leaves the direction, and the whole snake, unchanged.
\<close>

theorem turn_opposite_unchanged:
  "dir (turn (- fst (dir s), - snd (dir s)) s) = dir s
   \<and> turn (- fst (dir s), - snd (dir s)) s = s"
  by (simp add: turn_def opposite_def)

section \<open>Wall collisions\<close>

text \<open>
  C6. With wrap mode off, a tick whose next head lies outside the grid returns with the
  reason \<open>wall\<close> and the state \<open>GameOver\<close>, and the snake, the food and the score are
  those of the state before the tick.
\<close>

theorem wall_collision_game_over:
  assumes "\<not> wrap_on g"
    and "next_head (snake g) = Inr (nx, ny)"
    and "nx < 0 \<or> nx \<ge> GRID_W \<or> ny < 0 \<or> ny \<ge> GRID_H"
  shows "\<exists>g'. step_logic ti g = Inr g' \<and> state g' = GameOver
           \<and> game_over_reason g' = ''wall''
           \<and> snake g' = snake g \<and> food g' = food g \<and> score g' = score g"
  using assms by (auto simp: step_logic_def to_game_over_def)

theorem wall_collision_game_over_witness:
  "\<not> wrap_on (example_game\<lparr>snake := edge_snake\<rparr>)
   \<and> next_head (snake (example_game\<lparr>snake := edge_snake\<rparr>)) = Inr (32, 12)
   \<and> (32::int) \<ge> GRID_W
   \<and> (\<exists>g'. step_logic example_tick (example_game\<lparr>snake := edge_snake\<rparr>) = Inr g'
         \<and> state g' = GameOver \<and> game_over_reason g' = ''wall''
         \<and> snake g' = edge_snake
         \<and> food g' = food example_game \<and> score g' = 0)"
  using wall_collision_game_over
    [of "example_game\<lparr>snake := edge_snake\<rparr>" 32 12 example_tick]
  by (simp add: example_game_def edge_snake_def next_head_def head_def RIGHT_def GRID_W_val)

section \<open>Resetting a run\<close>


section \<open>Eating\<close>




section \<open>The tick rate after a tick\<close>





section \<open>Wrap mode\<close>

text \<open>
  C1. The code at the input of the claim: in wrap mode the snake at the right edge,
  moving right, has its head stored at column 32 after the tick, outside the grid.
  The folded coordinates are compared with the food only; \<open>move\<close> pushes the
  unfolded \<open>next_head\<close>.
\<close>

theorem wrap_head_leaves_grid:
  "step_logic example_tick (example_game\<lparr>wrap_on := True, snake := edge_snake\<rparr>)
     = Inr (example_game\<lparr>wrap_on := True,
              snake := \<lparr>body = [(32, 12), (31, 12), (30, 12)], dir = RIGHT\<rparr>\<rparr>)
   \<and> \<not> (32 < GRID_W)"
  by (simp add: step_logic_def example_game_def edge_snake_def next_head_def head_def RIGHT_def
      GRID_W_val GRID_H_val move_def hits_self_def Let_def step_logic_food_def
      step_logic_speed_def tick_rate_def clamp_def SPEED_STEP_EVERY_SCORE_def)

section \<open>Spawning food\<close>

lemma free_cells_example:
  "free_cells {(16, 12), (15, 12), (14, 12)} \<noteq> []
   \<and> free_cells {(16, 12), (15, 12), (14, 12)} ! 0 = (0, 0)"
  by (simp add: free_cells_def upto.simps GRID_W_val GRID_H_val)

text \<open>
  C4. The code at the input of the claim: \<open>spawn_food\<close> without \<open>force_normal\<close>, free
  cells, a successful draw below \<open>GOLD_CHANCE\<close> and no gold food present (the current
  food is normal) spawns a normal food, since the gold branch asks for an empty slot.
\<close>

theorem spawn_with_normal_food_present_is_normal:
  "food example_game = Some \<lparr>pos = (17, 12), kind = KNormal, spawn_time = 0\<rparr>
   \<and> rnd_random example_rnd < GOLD_CHANCE
   \<and> food (spawn_food False example_rnd example_game)
       = Some \<lparr>pos = (0, 0), kind = KNormal, spawn_time = 0\<rparr>"
  using free_cells_example
  by (simp add: spawn_food_def example_game_def example_rnd_def occupies_def GOLD_CHANCE_def
      Let_def)

section \<open>Invariants of the drain loop\<close>

lemma drain_invariant:
  assumes tick: "\<And>ti g g'. I g \<Longrightarrow> step_logic ti g = Inr g' \<Longrightarrow> I g'"
    and acc: "\<And>g a. I g \<Longrightarrow> I (g\<lparr>logic_acc := a\<rparr>)"
    and run: "drain step tks k g = Some (Inr g')"
    and start: "I g"
  shows "I g'"
proof -
  have "\<forall>g'. y = Inr g' \<longrightarrow> I g \<longrightarrow> I g'" if r: "drain step tks k g = Some y" for y
  proof (rule drain.raw_induct
      [where P = "\<lambda>step tks k g y. \<forall>g'. y = Inr g' \<longrightarrow> I g \<longrightarrow> I g'", OF _ r])
    fix loop step tks k g y
    assume IH: "\<And>step tks k g y. loop step tks k g = Some y
                  \<Longrightarrow> \<forall>g'. y = Inr g' \<longrightarrow> I g \<longrightarrow> I g'"
      and eq: "(if step \<le> logic_acc g
                then case step_logic (tks k) (g\<lparr>logic_acc := logic_acc g - step\<rparr>) of
                       Inl e \<Rightarrow> Some (Inl e)
                     | Inr g' \<Rightarrow> loop step tks (Suc k) g'
                else Some (Inr g)) = Some y"
    show "\<forall>g'. y = Inr g' \<longrightarrow> I g \<longrightarrow> I g'"
    proof (cases "step \<le> logic_acc g")
      case False
      with eq show ?thesis by auto
    next
      case True
      show ?thesis
      proof (cases "step_logic (tks k) (g\<lparr>logic_acc := logic_acc g - step\<rparr>)")
        case (Inl e)
        with True eq show ?thesis by auto
      next
        case (Inr g1)
        with True eq have d: "loop step tks (Suc k) g1 = Some y" by simp
        show ?thesis
        proof (intro allI impI)
          fix g' assume y: "y = Inr g'" and i: "I g"
          have "I g1" using tick [OF acc [OF i] Inr] .
          with IH [OF d] y show "I g'" by blast
        qed
      qed
    qed
  qed
  with run start show ?thesis by blast
qed

section \<open>The food is never gold\<close>

lemma spawn_food_normal:
  assumes "food_is_normal g" and "fn \<or> food g \<noteq> None"
  shows "food_is_normal (spawn_food fn r g)"
  using assms by (auto simp: spawn_food_def food_is_normal_def Let_def split: option.splits)

lemma spawn_food_keeps_some: "food g \<noteq> None \<Longrightarrow> food (spawn_food fn r g) \<noteq> None"
  by (auto simp: spawn_food_def Let_def)

lemma step_logic_food_normal:
  assumes "food_is_normal g" and "ak \<noteq> None \<longrightarrow> food g \<noteq> None"
  shows "food_is_normal (step_logic_food ti ak g)"
proof (cases "ak = None")
  case True
  then show ?thesis
    using assms by (auto simp: step_logic_food_def food_is_normal_def split: option.splits)
next
  case False
  then have some: "food g \<noteq> None" using assms by simp
  show ?thesis
  proof (cases "ak = Some KNormal \<and> gold_roll ti < GOLD_CHANCE")
    case False
    then show ?thesis
      using \<open>ak \<noteq> None\<close> assms(1)
      by (auto simp: step_logic_food_def intro: spawn_food_normal)
  next
    case True
    let ?g1 = "spawn_food False (spawn_a ti) g"
    have n1: "food_is_normal ?g1" using assms(1) some by (simp add: spawn_food_normal)
    have n2: "food_is_normal (spawn_food True (spawn_b ti) ?g1)"
      using n1 by (simp add: spawn_food_normal)
    have "step_logic_food ti ak g = spawn_food True (spawn_b ti) ?g1"
      using True n1 by (auto simp: step_logic_food_def Let_def food_is_normal_def split: option.splits)
    with n2 show ?thesis by simp
  qed
qed

lemma step_logic_cases_food:
  assumes "step_logic ti g = Inr g'"
  shows "food g' = food g
         \<or> (\<exists>sc s ak. (ak \<noteq> None \<longrightarrow> food g \<noteq> None)
              \<and> g' = step_logic_speed (step_logic_food ti ak (g\<lparr>score := sc, snake := s\<rparr>)))"
proof -
  have upd: "g = g\<lparr>score := score g\<rparr>" by simp
  show ?thesis
    using assms
    unfolding step_logic_def Let_def
    apply (simp split: sum.splits prod.splits if_splits bool.splits option.splits add: to_game_over_def)
    apply (auto)
    apply (metis upd option.distinct(1))+
    done
qed

lemma step_logic_speed_food_normal:
  "food_is_normal (step_logic_speed g) = food_is_normal g"
  by (simp add: food_is_normal_def step_logic_speed_fields)

lemma step_logic_normal:
  assumes "food_is_normal g" and "step_logic ti g = Inr g'"
  shows "food_is_normal g'"
proof -
  from step_logic_cases_food [OF assms(2)]
  show ?thesis
  proof
    assume "food g' = food g"
    with assms(1) show ?thesis by (simp add: food_is_normal_def)
  next
    assume "\<exists>sc s ak. (ak \<noteq> None \<longrightarrow> food g \<noteq> None)
              \<and> g' = step_logic_speed (step_logic_food ti ak (g\<lparr>score := sc, snake := s\<rparr>))"
    then obtain sc s ak where ak: "ak \<noteq> None \<longrightarrow> food g \<noteq> None"
      and g': "g' = step_logic_speed (step_logic_food ti ak (g\<lparr>score := sc, snake := s\<rparr>))"
      by blast
    have "food_is_normal (g\<lparr>score := sc, snake := s\<rparr>)"
      using assms(1) by (simp add: food_is_normal_def)
    moreover have "ak \<noteq> None \<longrightarrow> food (g\<lparr>score := sc, snake := s\<rparr>) \<noteq> None"
      using ak by simp
    ultimately show ?thesis
      unfolding g' step_logic_speed_food_normal by (rule step_logic_food_normal)
  qed
qed

lemma reset_run_normal: "food_is_normal (reset_run fr r g)"
proof -
  let ?g1 = "g\<lparr>snake := Snake_init (GRID_W div 2, GRID_H div 2) 3 RIGHT, score := 0,
               current_fps := BASE_FPS (mode g), logic_acc := 0,
               game_over_reason := [], food := None\<rparr>"
  have "food_is_normal ?g1" by (simp add: food_is_normal_def)
  then have "food_is_normal (spawn_food True r ?g1)" by (simp add: spawn_food_normal)
  then show ?thesis by (simp add: reset_run_def Let_def food_is_normal_def)
qed

lemma handle_turn_keys_food: "food (handle_turn_keys k g) = food g"
  by (simp add: handle_turn_keys_def)

lemma play_events_normal:
  "food_is_normal g \<Longrightarrow> play_events rs i es g = Return b g' \<or> play_events rs i es g = Fallthrough g'
     \<Longrightarrow> food_is_normal g'"
proof (induction rs i es g rule: play_events.induct)
  case (3 rs i k es g)
  have a: "food_is_normal (reset_run False (rs i) g)" by (rule reset_run_normal)
  have b: "food_is_normal (g\<lparr>sound := toggle (sound g)\<rparr>)"
    using 3(4) by (simp add: food_is_normal_def)
  have c: "food_is_normal (handle_turn_keys k g)"
    using 3(4) by (simp add: food_is_normal_def handle_turn_keys_food)
  show ?case
    using 3 a b c by (auto simp: food_is_normal_def split: if_splits)
qed auto

lemma pause_events_food:
  "pause_events es g = Return b g' \<or> pause_events es g = Fallthrough g' \<Longrightarrow> food g' = food g"
proof (induction es g rule: pause_events.induct)
  case (3 k es g)
  then show ?case by (auto split: if_splits)
qed auto

lemma gameover_events_normal:
  "food_is_normal g
     \<Longrightarrow> gameover_events rs i es g = Return b g' \<or> gameover_events rs i es g = Fallthrough g'
     \<Longrightarrow> food_is_normal g'"
proof (induction rs i es g rule: gameover_events.induct)
  case (3 rs i k es g)
  have a: "food_is_normal ((reset_run False (rs i) g)\<lparr>state := Playing\<rparr>)"
    using reset_run_normal [of False "rs i" g] by (simp add: food_is_normal_def)
  show ?case
    using 3 a by (auto simp: food_is_normal_def split: if_splits)
qed auto

lemma menu_change_value_food: "menu_change_value fw g = Inr g' \<Longrightarrow> food g' = food g"
  by (auto simp: menu_change_value_def Let_def split: sum.splits prod.splits if_splits)

lemma menu_events_normal:
  "food_is_normal g
     \<Longrightarrow> menu_events rs i es g = Inr (Return b g') \<or> menu_events rs i es g = Inr (Fallthrough g')
     \<Longrightarrow> food_is_normal g'"
proof (induction rs i es g rule: menu_events.induct)
  case (3 rs i k es g)
  note n = "3.prems"(1)
  have a: "food_is_normal ((reset_run True (rs i) g)\<lparr>state := Playing\<rparr>)"
    using reset_run_normal [of True "rs i" g] by (simp add: food_is_normal_def)
  have m: "food_is_normal (g\<lparr>menu_index := x\<rparr>)" for x
    using n by (simp add: food_is_normal_def)
  have c: "food_is_normal h" if "menu_change_value (k = K_RIGHT) g = Inr h" for h
    using menu_change_value_food [OF that] n by (simp add: food_is_normal_def)
  show ?case
    using "3.IH" "3.prems" a m c
    by (auto split: if_splits sum.splits prod.splits)
qed auto

lemma run_iter_normal:
  assumes n: "food_is_normal g" and r: "run_iter fi g = Some (Inr (b, g'))"
  shows "food_is_normal g'"
proof (cases "state g")
  case Menu
  with r have "menu_loop fi g = Inr (b, g')" by (simp add: run_iter_def)
  then have "menu_events (reset_draws fi) 0 (events fi) g = Inr (Return b g')
             \<or> menu_events (reset_draws fi) 0 (events fi) g = Inr (Fallthrough g')"
    by (auto simp: menu_loop_def split: sum.splits flow.splits)
  with n show ?thesis by (rule menu_events_normal)
next
  case Playing
  with r have p: "play_loop fi g = Some (Inr (b, g'))" by (simp add: run_iter_def)
  show ?thesis
  proof (cases "play_events (reset_draws fi) 0 (events fi) g")
    case (Return b1 g1)
    with p have "g' = g1" by (simp add: play_loop_def)
    with Return n show ?thesis using play_events_normal by blast
  next
    case (Fallthrough g1)
    have n1: "food_is_normal g1" using Fallthrough n play_events_normal by blast
    let ?g2 = "g1\<lparr>logic_acc := logic_acc g1 + real (tick_ms fi) / 1000\<rparr>"
    have d: "drain (1 / current_fps ?g2) (tick_draws fi) 0 ?g2 = Some (Inr g')"
      using p Fallthrough
      by (auto simp: play_loop_def Let_def split: if_splits option.splits sum.splits)
    have n2: "food_is_normal ?g2" using n1 by (simp add: food_is_normal_def)
    show ?thesis
    proof (rule drain_invariant [where I = food_is_normal, OF _ _ d n2])
      show "\<And>ti g g'. food_is_normal g \<Longrightarrow> step_logic ti g = Inr g' \<Longrightarrow> food_is_normal g'"
        by (rule step_logic_normal)
      show "\<And>g a. food_is_normal g \<Longrightarrow> food_is_normal (g\<lparr>logic_acc := a\<rparr>)"
        by (simp add: food_is_normal_def)
    qed
  qed
next
  case Paused
  with r have "pause_loop fi g = (b, g')" by (simp add: run_iter_def)
  then have "pause_events (events fi) g = Return b g' \<or> pause_events (events fi) g = Fallthrough g'"
    by (auto simp: pause_loop_def split: flow.splits)
  from pause_events_food [OF this] n show ?thesis by (simp add: food_is_normal_def)
next
  case GameOver
  with r have "gameover_loop fi g = (b, g')" by (simp add: run_iter_def)
  then have "gameover_events (reset_draws fi) 0 (events fi) g = Return b g'
             \<or> gameover_events (reset_draws fi) 0 (events fi) g = Fallthrough g'"
    by (auto simp: gameover_loop_def split: flow.splits)
  with n show ?thesis by (rule gameover_events_normal)
qed

lemma Game_init_normal: "food_is_normal (Game_init m w cs mo recs r)"
  using reset_run_normal [of True r]
  by (simp add: Game_init_def Let_def food_is_normal_def)

text \<open>
  C3. In every reachable state the current food, when there is one, is normal; it is
  still so after any tick from that state; and a call of \<open>spawn_food\<close> without
  \<open>force_normal\<close> in a reachable state whose food slot is taken (as it is after eating)
  yields a normal food.
\<close>

theorem reachable_food_is_normal:
  assumes "reachable g"
  shows "(\<forall>f. food g = Some f \<longrightarrow> kind f = KNormal)
         \<and> (\<forall>ti g' f. step_logic ti g = Inr g' \<longrightarrow> food g' = Some f \<longrightarrow> kind f = KNormal)
         \<and> (\<forall>r f. food g \<noteq> None \<longrightarrow> food (spawn_food False r g) = Some f
               \<longrightarrow> kind f = KNormal)"
proof -
  have n: "food_is_normal g"
    using assms
  proof (induction rule: reachable.induct)
    case (init m wrap cfg_sound mixer_ok recs r)
    show ?case by (rule Game_init_normal)
  next
    case (frame g fi g')
    then show ?case using run_iter_normal by blast
  qed
  have a: "\<forall>f. food g = Some f \<longrightarrow> kind f = KNormal"
    using n by (auto simp: food_is_normal_def)
  have b: "kind f = KNormal" if "step_logic ti g = Inr g'" "food g' = Some f" for ti g' f
    using step_logic_normal [OF n that(1)] that(2) by (simp add: food_is_normal_def)
  have c: "kind f = KNormal" if "food g \<noteq> None" "food (spawn_food False r g) = Some f" for r f
    using spawn_food_normal [OF n, of False r] that by (simp add: food_is_normal_def)
  show ?thesis using a b c by blast
qed

section \<open>The records never decrease\<close>

lemma records_le_refl: "records_le r r"
  by (simp add: records_le_def)

lemma records_le_get: "records_le r r' \<Longrightarrow> records_get r k \<le> records_get r' k"
  unfolding records_le_def
  by (metis less_imp_le option.simps(5) order_refl records_get_def)

lemma records_le_trans:
  assumes "records_le r1 r2" and "records_le r2 r3"
  shows "records_le r1 r3"
  unfolding records_le_def
proof
  fix k
  from assms(2) have c: "r3 k = r2 k \<or> (\<exists>s. r3 k = Some s \<and> records_get r2 k < s)"
    by (simp add: records_le_def)
  from assms(1) have d: "r2 k = r1 k \<or> (\<exists>s. r2 k = Some s \<and> records_get r1 k < s)"
    by (simp add: records_le_def)
  have e: "records_get r1 k \<le> records_get r2 k" using assms(1) by (rule records_le_get)
  show "r3 k = r1 k \<or> (\<exists>s. r3 k = Some s \<and> records_get r1 k < s)"
    using c d e by (auto simp: records_get_def)
qed

lemma step_logic_speed_keeps:
  assumes "tick_keeps r0 m0 w0 g"
  shows "tick_keeps r0 m0 w0 (step_logic_speed g)"
proof (cases "score g > best g")
  case False
  then have "step_logic_speed g = g\<lparr>current_fps := tick_rate (mode g) (score g)\<rparr>"
    by (simp add: step_logic_speed_def Let_def)
  with assms show ?thesis by (simp add: tick_keeps_def best_is_record_def active_key_def)
next
  case True
  let ?k = "key_for_record m0 w0"
  have eq: "step_logic_speed g =
          g\<lparr>current_fps := tick_rate (mode g) (score g), best := score g,
            records := (records g)(?k \<mapsto> score g)\<rparr>"
    using True assms by (simp add: step_logic_speed_def Let_def tick_keeps_def)
  have b: "best g = records_get (records g) ?k"
    using assms by (simp add: tick_keeps_def best_is_record_def active_key_def)
  have "records_le (records g) ((records g)(?k \<mapsto> score g))"
    using True b by (simp add: records_le_def)
  with assms have "records_le r0 ((records g)(?k \<mapsto> score g))"
    using records_le_trans by (auto simp: tick_keeps_def)
  with assms show ?thesis
    unfolding eq
    by (simp add: tick_keeps_def best_is_record_def active_key_def records_get_def)
qed

lemma step_logic_keeps:
  assumes k: "tick_keeps r0 m0 w0 g" and r: "step_logic ti g = Inr g'"
  shows "tick_keeps r0 m0 w0 g'"
proof -
  from step_logic_cases [OF r]
  consider (wall) "g' = to_game_over (g\<lparr>game_over_reason := ''wall''\<rparr>)"
    | (self) sc s where
        "g' = to_game_over (g\<lparr>score := sc, snake := s, game_over_reason := ''self''\<rparr>)"
    | (go) sc s ak where
        "g' = step_logic_speed (step_logic_food ti ak (g\<lparr>score := sc, snake := s\<rparr>))"
    by blast
  then show ?thesis
  proof cases
    case wall
    with k show ?thesis
      by (simp add: to_game_over_def tick_keeps_def best_is_record_def active_key_def)
  next
    case self
    with k show ?thesis
      by (simp add: to_game_over_def tick_keeps_def best_is_record_def active_key_def)
  next
    case go
    have "tick_keeps r0 m0 w0 (step_logic_food ti ak (g\<lparr>score := sc, snake := s\<rparr>))"
      using k
      by (simp add: tick_keeps_def best_is_record_def active_key_def step_logic_food_fields)
    then show ?thesis unfolding go by (rule step_logic_speed_keeps)
  qed
qed

lemma reset_run_fields:
  "mode (reset_run fr r g) = mode g"
  "wrap_on (reset_run fr r g) = wrap_on g"
  "records (reset_run fr r g) = records g"
  "state (reset_run fr r g) = state g"
  "menu_index (reset_run fr r g) = menu_index g"
  "best (reset_run fr r g) = records_get (records g) (key_for_record (mode g) (wrap_on g))"
  "current_fps (reset_run fr r g) = BASE_FPS (mode g)"
  "snake (reset_run fr r g) = Snake_init (GRID_W div 2, GRID_H div 2) 3 RIGHT"
proof -
  let ?g1 = "g\<lparr>snake := Snake_init (GRID_W div 2, GRID_H div 2) 3 RIGHT, score := 0,
               current_fps := BASE_FPS (mode g), logic_acc := 0,
               game_over_reason := [], food := None\<rparr>"
  obtain fo where "spawn_food True r ?g1 = ?g1\<lparr>food := fo\<rparr>"
    using spawn_food_only_food by blast
  then show "mode (reset_run fr r g) = mode g"
  "wrap_on (reset_run fr r g) = wrap_on g"
  "records (reset_run fr r g) = records g"
  "state (reset_run fr r g) = state g"
  "menu_index (reset_run fr r g) = menu_index g"
  "best (reset_run fr r g) = records_get (records g) (key_for_record (mode g) (wrap_on g))"
  "current_fps (reset_run fr r g) = BASE_FPS (mode g)"
  "snake (reset_run fr r g) = Snake_init (GRID_W div 2, GRID_H div 2) 3 RIGHT"
    by (simp_all add: reset_run_def Let_def)
qed

lemma handle_turn_keys_fields:
  "food (handle_turn_keys k g) = food g"
  "records (handle_turn_keys k g) = records g"
  "best (handle_turn_keys k g) = best g"
  "mode (handle_turn_keys k g) = mode g"
  "wrap_on (handle_turn_keys k g) = wrap_on g"
  "current_fps (handle_turn_keys k g) = current_fps g"
  by (simp_all add: handle_turn_keys_def)

lemma play_events_records:
  "play_events rs i es g = Return b g' \<or> play_events rs i es g = Fallthrough g'
     \<Longrightarrow> same_records g g' \<and> mode g' = mode g \<and> wrap_on g' = wrap_on g"
proof (induction rs i es g rule: play_events.induct)
  case (3 rs i k es g)
  show ?case
    using "3.IH" "3.prems"
    by (auto simp: same_records_def best_is_record_def active_key_def reset_run_fields
        handle_turn_keys_fields split: if_splits)
qed (auto simp: same_records_def)

lemma pause_events_records:
  "pause_events es g = Return b g' \<or> pause_events es g = Fallthrough g' \<Longrightarrow> same_records g g'"
proof (induction es g rule: pause_events.induct)
  case (3 k es g)
  show ?case
    using "3.IH" "3.prems"
    by (auto simp: same_records_def best_is_record_def active_key_def split: if_splits)
qed (auto simp: same_records_def)

lemma gameover_events_records:
  "gameover_events rs i es g = Return b g' \<or> gameover_events rs i es g = Fallthrough g'
     \<Longrightarrow> same_records g g'"
proof (induction rs i es g rule: gameover_events.induct)
  case (3 rs i k es g)
  show ?case
    using "3.IH" "3.prems"
    by (auto simp: same_records_def best_is_record_def active_key_def reset_run_fields
        split: if_splits)
qed (auto simp: same_records_def)

lemma menu_change_value_records:
  "menu_change_value fw g = Inr g' \<Longrightarrow> same_records g g'"
  by (auto simp: menu_change_value_def Let_def same_records_def best_is_record_def
      active_key_def split: sum.splits prod.splits if_splits)

lemma same_records_trans: "same_records g g1 \<Longrightarrow> same_records g1 g2 \<Longrightarrow> same_records g g2"
  by (simp add: same_records_def)

lemma menu_events_records:
  "menu_events rs i es g = Inr (Return b g') \<or> menu_events rs i es g = Inr (Fallthrough g')
     \<Longrightarrow> same_records g g'"
proof (induction rs i es g rule: menu_events.induct)
  case (3 rs i k es g)
  let ?rest = "\<lambda>h. menu_events rs (Suc i) es h = Inr (Return b g')
                 \<or> menu_events rs (Suc i) es h = Inr (Fallthrough g')"
  have m: "same_records g (g\<lparr>menu_index := x\<rparr>)" for x
    by (simp add: same_records_def best_is_record_def active_key_def)
  have refl: "same_records g g" by (simp add: same_records_def)
  consider (esc) "k = K_ESCAPE"
    | (up) "k \<noteq> K_ESCAPE" "k = K_UP"
    | (down) "k \<noteq> K_ESCAPE" "k \<noteq> K_UP" "k = K_DOWN"
    | (lr) "k \<noteq> K_ESCAPE" "k \<noteq> K_UP" "k \<noteq> K_DOWN" "k = K_LEFT \<or> k = K_RIGHT"
    | (ret) "k \<noteq> K_ESCAPE" "k \<noteq> K_UP" "k \<noteq> K_DOWN" "\<not> (k = K_LEFT \<or> k = K_RIGHT)"
        "k = K_RETURN \<or> k = K_KP_ENTER"
    | (other) "k \<noteq> K_ESCAPE" "k \<noteq> K_UP" "k \<noteq> K_DOWN" "\<not> (k = K_LEFT \<or> k = K_RIGHT)"
        "\<not> (k = K_RETURN \<or> k = K_KP_ENTER)"
    by blast
  then show ?case
  proof cases
    case esc
    with "3.prems" have "g' = g" by simp
    with refl show ?thesis by simp
  next
    case up
    let ?h = "g\<lparr>menu_index := (menu_index g - 1) mod int (length menu_items)\<rparr>"
    from up "3.prems" have "?rest ?h" by simp
    with "3.IH"(1) up have "same_records ?h g'" by simp
    with m show ?thesis by (rule same_records_trans)
  next
    case down
    let ?h = "g\<lparr>menu_index := (menu_index g + 1) mod int (length menu_items)\<rparr>"
    from down "3.prems" have "?rest ?h" by simp
    with "3.IH"(2) down have "same_records ?h g'" by simp
    with m show ?thesis by (rule same_records_trans)
  next
    case lr
    from lr "3.prems" obtain h where h: "menu_change_value (k = K_RIGHT) g = Inr h"
      and rest: "?rest h"
      by (cases "menu_change_value (k = K_RIGHT) g") auto
    from "3.IH"(3) [OF lr(1) lr(2) lr(3) lr(4) h] rest have "same_records h g'" by simp
    with menu_change_value_records [OF h] show ?thesis by (rule same_records_trans)
  next
    case ret
    from ret "3.prems" obtain label vals where it: "py_index menu_items (menu_index g) = Inr (label, vals)"
      by (cases "py_index menu_items (menu_index g)") auto
    show ?thesis
    proof (cases "label = ''Start''")
      case True
      with ret it "3.prems" have "g' = (reset_run True (rs i) g)\<lparr>state := Playing\<rparr>" by simp
      then show ?thesis
        by (simp add: same_records_def best_is_record_def active_key_def reset_run_fields)
    next
      case False
      show ?thesis
      proof (cases "label = ''Quit''")
        case True
        with False ret it "3.prems" have "g' = g" by simp
        with refl show ?thesis by simp
      next
        case q: False
        with False ret it "3.prems" have "?rest g" by simp
        with "3.IH"(4) [OF ret(1) ret(2) ret(3) ret(4) ret(5) it HOL.refl False q]
        show ?thesis by simp
      qed
    qed
  next
    case other
    with "3.prems" have "?rest g" by simp
    with "3.IH"(5) other show ?thesis by simp
  qed
qed (auto simp: same_records_def)

lemma tick_keeps_acc: "tick_keeps r0 m0 w0 g \<Longrightarrow> tick_keeps r0 m0 w0 (g\<lparr>logic_acc := a\<rparr>)"
  by (simp add: tick_keeps_def best_is_record_def active_key_def)

lemma play_loop_records:
  assumes i: "best_is_record g" and p: "play_loop fi g = Some (Inr (b, g'))"
  shows "tick_keeps (records g) (mode g) (wrap_on g) g'"
proof -
  have start: "tick_keeps (records g) (mode g) (wrap_on g) h"
    if "same_records g h" "mode h = mode g" "wrap_on h = wrap_on g" for h
    using that i by (simp add: tick_keeps_def same_records_def records_le_refl)
  show ?thesis
  proof (cases "play_events (reset_draws fi) 0 (events fi) g")
    case (Return b1 g1)
    with p have "g' = g1" by (simp add: play_loop_def)
    with Return play_events_records [of "reset_draws fi" 0 "events fi" g b1 g1] start
    show ?thesis by simp
  next
    case (Fallthrough g1)
    let ?g2 = "g1\<lparr>logic_acc := logic_acc g1 + real (tick_ms fi) / 1000\<rparr>"
    have d: "drain (1 / current_fps ?g2) (tick_draws fi) 0 ?g2 = Some (Inr g')"
      using p Fallthrough
      by (auto simp: play_loop_def Let_def split: if_splits option.splits sum.splits)
    have "tick_keeps (records g) (mode g) (wrap_on g) g1"
      using Fallthrough play_events_records [of "reset_draws fi" 0 "events fi" g b g1] start
      by simp
    then have k2: "tick_keeps (records g) (mode g) (wrap_on g) ?g2" by (rule tick_keeps_acc)
    show ?thesis
      by (rule drain_invariant [where I = "tick_keeps (records g) (mode g) (wrap_on g)", OF _ _ d k2])
        (erule (1) step_logic_keeps, erule tick_keeps_acc)
  qed
qed

text \<open>One pass of \<open>run\<close>: the invariant, the order of the records, the key that changed.\<close>

lemma run_iter_records:
  assumes i: "best_is_record g" and r: "run_iter fi g = Some (Inr (b, g'))"
  shows "best_is_record g' \<and> records_le (records g) (records g')
         \<and> (\<forall>k. records g' k \<noteq> records g k \<longrightarrow>
               state g = Playing \<and> k = key_for_record (mode g) (wrap_on g)
               \<and> mode g' = mode g \<and> wrap_on g' = wrap_on g)"
proof (cases "state g")
  case Menu
  with r have "menu_loop fi g = Inr (b, g')" by (simp add: run_iter_def)
  then have "menu_events (reset_draws fi) 0 (events fi) g = Inr (Return b g')
             \<or> menu_events (reset_draws fi) 0 (events fi) g = Inr (Fallthrough g')"
    by (auto simp: menu_loop_def split: sum.splits flow.splits)
  from menu_events_records [OF this] i show ?thesis
    by (simp add: same_records_def records_le_refl)
next
  case Playing
  with r have "play_loop fi g = Some (Inr (b, g'))" by (simp add: run_iter_def)
  from play_loop_records [OF i this] Playing show ?thesis
    by (simp add: tick_keeps_def)
next
  case Paused
  with r have "pause_loop fi g = (b, g')" by (simp add: run_iter_def)
  then have "pause_events (events fi) g = Return b g' \<or> pause_events (events fi) g = Fallthrough g'"
    by (auto simp: pause_loop_def split: flow.splits)
  from pause_events_records [OF this] i show ?thesis
    by (simp add: same_records_def records_le_refl)
next
  case GameOver
  with r have "gameover_loop fi g = (b, g')" by (simp add: run_iter_def)
  then have "gameover_events (reset_draws fi) 0 (events fi) g = Return b g'
             \<or> gameover_events (reset_draws fi) 0 (events fi) g = Fallthrough g'"
    by (auto simp: gameover_loop_def split: flow.splits)
  from gameover_events_records [OF this] i show ?thesis
    by (simp add: same_records_def records_le_refl)
qed

lemma run_frames_records:
  "best_is_record g \<Longrightarrow> run_frames fis g = Some (Inr g') \<Longrightarrow> records_le (records g) (records g')"
proof (induction fis arbitrary: g)
  case Nil
  then show ?case by (simp add: records_le_refl)
next
  case (Cons fi fis)
  from Cons.prems(2) obtain b g1 where it: "run_iter fi g = Some (Inr (b, g1))"
    and rest: "if b then run_frames fis g1 = Some (Inr g') else g' = g1"
    by (auto split: option.splits sum.splits if_splits)
  from run_iter_records [OF Cons.prems(1) it]
  have i1: "best_is_record g1" and le1: "records_le (records g) (records g1)" by simp_all
  show ?case
  proof (cases b)
    case True
    with rest have "run_frames fis g1 = Some (Inr g')" by simp
    from Cons.IH [OF i1 this] le1 show ?thesis using records_le_trans by blast
  next
    case False
    with rest le1 show ?thesis by simp
  qed
qed

lemma reachable_best_is_record: "reachable g \<Longrightarrow> best_is_record g"
proof (induction rule: reachable.induct)
  case (init m wrap cfg_sound mixer_ok recs r)
  show ?case
    by (simp add: Game_init_def Let_def best_is_record_def active_key_def reset_run_fields)
next
  case (frame g fi g')
  then show ?case using run_iter_records by blast
qed

text \<open>
  C9. From a reachable state, over any sequence of frames (ticks, resets, restarts, menu
  changes of mode and wrap), the record of every key never decreases: an entry of the
  table is either the same or replaced by a strictly larger score. In one pass of the
  run loop an entry changes only in state \<open>Playing\<close> and only for the active key, which
  then holds the best score of the run under that key.
\<close>

theorem records_never_decrease:
  assumes "reachable g"
  shows "(run_frames fis g = Some (Inr g') \<longrightarrow>
            (\<forall>k. records_get (records g) k \<le> records_get (records g') k
                 \<and> (records g' k = records g k
                     \<or> (\<exists>s. records g' k = Some s \<and> records_get (records g) k < s))))
         \<and> (run_iter fi g = Some (Inr (b, g1)) \<longrightarrow>
              (\<forall>k. records g1 k \<noteq> records g k \<longrightarrow>
                 state g = Playing \<and> k = key_for_record (mode g) (wrap_on g)
                 \<and> k = key_for_record (mode g1) (wrap_on g1)
                 \<and> records g1 k = Some (best g1)))"
proof (intro conjI impI allI)
  note i = reachable_best_is_record [OF assms]
  {
    fix k
    assume "run_frames fis g = Some (Inr g')"
    from run_frames_records [OF i this] have le: "records_le (records g) (records g')" .
    then show "records_get (records g) k \<le> records_get (records g') k"
      by (rule records_le_get)
    from le show "records g' k = records g k
        \<or> (\<exists>s. records g' k = Some s \<and> records_get (records g) k < s)"
      by (simp add: records_le_def)
  }
  {
    fix k
    assume it: "run_iter fi g = Some (Inr (b, g1))" and ch: "records g1 k \<noteq> records g k"
    from run_iter_records [OF i it] ch
    have i1: "best_is_record g1" and le: "records_le (records g) (records g1)"
      and st: "state g = Playing" and key: "k = key_for_record (mode g) (wrap_on g)"
      and same: "mode g1 = mode g" "wrap_on g1 = wrap_on g"
      by simp_all
    from st show "state g = Playing" .
    from key show "k = key_for_record (mode g) (wrap_on g)" .
    from key same show "k = key_for_record (mode g1) (wrap_on g1)" by simp
    from le ch obtain s where "records g1 k = Some s" by (auto simp: records_le_def)
    with i1 key same show "records g1 k = Some (best g1)"
      by (simp add: best_is_record_def active_key_def records_get_def)
  }
qed

section \<open>A run of two frames\<close>

lemma free_cells_start:
  "length (free_cells {(14, 12), (15, 12), (16, 12)}) = 765
   \<and> free_cells {(14, 12), (15, 12), (16, 12)} ! 347 = (14, 11)"
  by (simp add: free_cells_def upto.simps GRID_W_val GRID_H_val)

lemma reset_run_start:
  "reset_run fr start_rnd (started_game\<lparr>state := st\<rparr>) = started_game\<lparr>state := st\<rparr>"
  "reset_run fr start_rnd
     (\<lparr>mode = Normal, wrap_on = False, state = Menu,
               sound = SFX_init False False, records = Map.empty,
               snake = \<lparr>body = [], dir = RIGHT\<rparr>, score = 0, current_fps = 0,
               logic_acc = 0, game_over_reason = [], food = None, best = 0,
               menu_index = 0\<rparr>) = started_game"
  using free_cells_start
  by (auto simp: reset_run_def Let_def started_game_def spawn_food_def occupies_def
      Snake_init_def GRID_W_val GRID_H_val start_rnd_def records_get_def upt_rec
      SFX_init_def)

lemma start_game_value: "start_game = started_game"
  using reset_run_start(2) by (simp add: start_game_def Game_init_def started_game_def)

lemma start_frame_runs:
  "run_iter start_frame start_game = Some (Inr (True, started_game\<lparr>state := Playing\<rparr>))"
  using reset_run_start(1) [of True Menu]
  by (simp add: start_game_value run_iter_def menu_loop_def start_frame_def py_index_def
      menu_items_def started_game_def)

lemma free_cells_fed:
  "free_cells {(14, 11), (14, 12), (15, 12), (16, 12)} \<noteq> []
   \<and> free_cells {(14, 11), (14, 12), (15, 12), (16, 12)} ! 0 = (0, 0)"
  by (simp add: free_cells_def upto.simps GRID_W_val GRID_H_val)

lemma eat_tick:
  "step_logic example_tick
     (started_game\<lparr>state := Playing,
        snake := \<lparr>body = [(14, 12), (15, 12), (16, 12)], dir = UP\<rparr>, logic_acc := 0\<rparr>)
   = Inr fed_game"
  using free_cells_fed
  by (simp add: step_logic_def started_game_def fed_game_def next_head_def head_def UP_def
      GRID_W_val GRID_H_val move_def hits_self_def Let_def step_logic_food_def
      step_logic_speed_def tick_rate_def clamp_def SPEED_STEP_EVERY_SCORE_def
      SPEED_INCREMENT_def SCORE_NORMAL_def example_tick_def example_rnd_def GOLD_CHANCE_def
      spawn_food_def occupies_def key_for_record_def)

lemma eat_frame_runs:
  "run_iter eat_frame (started_game\<lparr>state := Playing\<rparr>) = Some (Inr (True, fed_game))"
proof -
  have ev: "play_events (reset_draws eat_frame) 0 (events eat_frame) (started_game\<lparr>state := Playing\<rparr>)
       = Fallthrough (started_game\<lparr>state := Playing,
            snake := \<lparr>body = [(14, 12), (15, 12), (16, 12)], dir = UP\<rparr>\<rparr>)"
    by (simp add: eat_frame_def handle_turn_keys_def turn_def opposite_def started_game_def
        RIGHT_def UP_def)
  have d2: "drain (1 / 10) (\<lambda>_. example_tick) (Suc 0) fed_game = Some (Inr fed_game)"
    by (subst drain.simps) (simp add: fed_game_def started_game_def)
  have d1: "drain (1 / 10) (\<lambda>_. example_tick) 0
          (started_game\<lparr>state := Playing,
            snake := \<lparr>body = [(14, 12), (15, 12), (16, 12)], dir = UP\<rparr>, logic_acc := 1 / 10\<rparr>)
        = Some (Inr fed_game)"
    by (subst drain.simps) (simp add: eat_tick d2)
  have fps: "current_fps started_game = 10" "logic_acc started_game = 0"
    by (simp_all add: started_game_def)
  show ?thesis
    unfolding run_iter_def play_loop_def Let_def ev
    using d1 by (simp add: eat_frame_def fps)
qed

lemma fed_game_reachable: "reachable fed_game"
proof -
  have "reachable start_game" unfolding start_game_def by (rule reachable.init)
  then have "reachable (started_game\<lparr>state := Playing\<rparr>)"
    using start_frame_runs by (rule reachable.frame)
  then show ?thesis using eat_frame_runs by (rule reachable.frame)
qed

lemma two_frames_run: "run_frames [start_frame, eat_frame] start_game = Some (Inr fed_game)"
  by (simp add: start_frame_runs eat_frame_runs)

theorem records_never_decrease_witness:
  "reachable start_game
   \<and> run_frames [start_frame, eat_frame] start_game = Some (Inr fed_game)
   \<and> records_get (records start_game) ''normal_off'' \<le> records_get (records fed_game) ''normal_off''
   \<and> records fed_game ''normal_off'' = Some 10
   \<and> reachable (started_game\<lparr>state := Playing\<rparr>)
   \<and> run_iter eat_frame (started_game\<lparr>state := Playing\<rparr>) = Some (Inr (True, fed_game))
   \<and> records fed_game ''normal_off'' \<noteq> records (started_game\<lparr>state := Playing\<rparr>) ''normal_off''
   \<and> ''normal_off'' = key_for_record (mode fed_game) (wrap_on fed_game)
   \<and> records fed_game ''normal_off'' = Some (best fed_game)"
proof -
  have r0: "reachable start_game" unfolding start_game_def by (rule reachable.init)
  have r1: "reachable (started_game\<lparr>state := Playing\<rparr>)"
    using r0 start_frame_runs by (rule reachable.frame)
  have ch: "records fed_game ''normal_off'' \<noteq> records (started_game\<lparr>state := Playing\<rparr>) ''normal_off''"
    by (simp add: fed_game_def started_game_def)
  from records_never_decrease [OF r0, of "[start_frame, eat_frame]" fed_game start_frame True fed_game]
    records_never_decrease [OF r1, of "[]" fed_game eat_frame True fed_game]
    two_frames_run eat_frame_runs r0 r1 ch
  show ?thesis
    by (simp add: fed_game_def started_game_def)
qed

lemma first_tick_bites:
  "step_logic example_tick (started_game\<lparr>state := Playing\<rparr>)
     = Inr (started_game\<lparr>state := GameOver, game_over_reason := ''self'',
              snake := \<lparr>body = [(15, 12), (14, 12), (15, 12)], dir = RIGHT\<rparr>\<rparr>)"
  by (simp add: step_logic_def started_game_def next_head_def head_def RIGHT_def
      GRID_W_val GRID_H_val move_def hits_self_def Let_def to_game_over_def)

lemma spawn_after_eating:
  "food (spawn_food False example_rnd fed_game)
     = Some \<lparr>pos = (0, 0), kind = KNormal, spawn_time = 0\<rparr>"
  using free_cells_fed
  by (simp add: spawn_food_def fed_game_def started_game_def example_rnd_def occupies_def
      GOLD_CHANCE_def Let_def)

theorem reachable_food_is_normal_witness:
  "reachable fed_game
   \<and> food fed_game = Some \<lparr>pos = (0, 0), kind = KNormal, spawn_time = 0\<rparr>
   \<and> reachable (started_game\<lparr>state := Playing\<rparr>)
   \<and> step_logic example_tick (started_game\<lparr>state := Playing\<rparr>)
       = Inr (started_game\<lparr>state := GameOver, game_over_reason := ''self'',
                snake := \<lparr>body = [(15, 12), (14, 12), (15, 12)], dir = RIGHT\<rparr>\<rparr>)
   \<and> food (started_game\<lparr>state := GameOver, game_over_reason := ''self'',
                snake := \<lparr>body = [(15, 12), (14, 12), (15, 12)], dir = RIGHT\<rparr>\<rparr>)
       = Some \<lparr>pos = (14, 11), kind = KNormal, spawn_time = 0\<rparr>
   \<and> food fed_game \<noteq> None
   \<and> food (spawn_food False example_rnd fed_game)
       = Some \<lparr>pos = (0, 0), kind = KNormal, spawn_time = 0\<rparr>
   \<and> kind \<lparr>pos = (0, 0), kind = KNormal, spawn_time = 0\<rparr> = KNormal
   \<and> kind \<lparr>pos = (14, 11), kind = KNormal, spawn_time = 0\<rparr> = KNormal"
proof -
  have r0: "reachable start_game" unfolding start_game_def by (rule reachable.init)
  have r1: "reachable (started_game\<lparr>state := Playing\<rparr>)"
    using r0 start_frame_runs by (rule reachable.frame)
  from reachable_food_is_normal [OF fed_game_reachable] reachable_food_is_normal [OF r1]
    fed_game_reachable r1 first_tick_bites spawn_after_eating
  show ?thesis
    by (simp add: fed_game_def started_game_def)
qed

section \<open>The step of the drain loop\<close>

lemma step_logic_acc: "step_logic ti g = Inr g' \<Longrightarrow> logic_acc g' = logic_acc g"
  using step_logic_cases [of ti g g']
  by (auto simp: to_game_over_def step_logic_speed_fields step_logic_food_fields)










section \<open>Every pass of the run loop returns\<close>

lemma tick_rate_pos: "0 < tick_rate m s"
  using tick_rate_bounds [of m s] by (cases m) simp_all

lemma step_logic_menu_index:
  "step_logic ti g = Inr g' \<Longrightarrow> menu_index g' = menu_index g"
proof -
  have f: "menu_index (step_logic_food ti ak h) = menu_index h" for ak h
    using step_logic_food_only_food [of ti ak h] by auto
  have s: "menu_index (step_logic_speed h) = menu_index h" for h
    by (simp add: step_logic_speed_def Let_def)
  assume "step_logic ti g = Inr g'"
  from step_logic_cases [OF this] show ?thesis
    by (auto simp: to_game_over_def f s)
qed

lemma step_logic_fps:
  "step_logic ti g = Inr g' \<Longrightarrow> 0 < current_fps g \<Longrightarrow> 0 < current_fps g'"
  using step_logic_cases [of ti g g']
  by (auto simp: to_game_over_def step_logic_speed_fields tick_rate_pos)

lemma step_logic_returns:
  assumes "body (snake g) \<noteq> []"
  shows "\<exists>g'. step_logic ti g = Inr g' \<and> body (snake g') \<noteq> []"
proof -
  obtain c t where b: "body (snake g) = c # t"
    using assms by (cases "body (snake g)") auto
  obtain x y where c: "c = (x, y)" by (cases c)
  obtain dx dy where d: "dir (snake g) = (dx, dy)" by (cases "dir (snake g)")
  show ?thesis
    using b c d
    by (auto simp: step_logic_def Let_def next_head_def head_def move_def hits_self_def
        to_game_over_def step_logic_speed_fields step_logic_food_fields
        split: option.splits bool.splits)
qed

lemma step_logic_ready:
  assumes "run_ready g"
  shows "\<exists>g'. step_logic ti g = Inr g' \<and> run_ready g'"
proof -
  from assms have "body (snake g) \<noteq> []" by (simp add: run_ready_def)
  from step_logic_returns [OF this] obtain g'
    where r: "step_logic ti g = Inr g'" and b: "body (snake g') \<noteq> []" by blast
  from step_logic_fps [OF r] step_logic_menu_index [OF r] assms b
  have "run_ready g'" by (simp add: run_ready_def)
  with r show ?thesis by blast
qed

lemma drain_returns:
  assumes pos: "0 < step"
  shows "nat \<lfloor>logic_acc g / step\<rfloor> = n \<Longrightarrow> run_ready g \<Longrightarrow>
         \<exists>g'. drain step tks k g = Some (Inr g') \<and> run_ready g'"
proof (induction n arbitrary: g k)
  case 0
  then have "\<lfloor>logic_acc g / step\<rfloor> \<le> 0" by simp
  then have "logic_acc g / step < 1" by (simp add: floor_le_iff)
  with pos have "logic_acc g < step" by (simp add: divide_less_eq)
  with 0 show ?case by (subst drain.simps) simp
next
  case (Suc n)
  then have fl: "\<lfloor>logic_acc g / step\<rfloor> = int n + 1" by linarith
  then have "1 \<le> \<lfloor>logic_acc g / step\<rfloor>" by simp
  then have "1 \<le> logic_acc g / step" by (simp only: le_floor_iff of_int_1)
  with pos have ge: "step \<le> logic_acc g" by (simp add: le_divide_eq)
  let ?g = "g\<lparr>logic_acc := logic_acc g - step\<rparr>"
  have "run_ready ?g" using Suc.prems(2) by (simp add: run_ready_def)
  from step_logic_ready [OF this] obtain g1
    where s: "step_logic (tks k) ?g = Inr g1" and r1: "run_ready g1" by blast
  have a1: "logic_acc g1 = logic_acc g - step"
    using step_logic_acc [OF s] by simp
  have "logic_acc g1 / step = logic_acc g / step - 1"
    using pos a1 by (simp add: diff_divide_distrib)
  then have "\<lfloor>logic_acc g1 / step\<rfloor> = int n" using fl by simp
  then have "nat \<lfloor>logic_acc g1 / step\<rfloor> = n" by simp
  from Suc.IH [OF this r1, of "Suc k"] obtain g'
    where r: "drain step tks (Suc k) g1 = Some (Inr g')" and r': "run_ready g'"
    by blast
  have "drain step tks k g = Some (Inr g')"
    using ge s r by (subst drain.simps) simp
  with r' show ?case by blast
qed

lemma reset_run_ready: "run_ready g \<Longrightarrow> run_ready (reset_run fr r g)"
proof -
  assume a: "run_ready g"
  have "0 < BASE_FPS (mode g)" by (cases "mode g") simp_all
  then show ?thesis
    using a by (simp add: run_ready_def reset_run_fields Snake_init_def upt_rec)
qed

lemma turn_body: "body (turn d s) = body s"
  by (simp add: turn_def)

lemma handle_turn_keys_ready: "run_ready g \<Longrightarrow> run_ready (handle_turn_keys k g)"
  by (simp add: handle_turn_keys_def run_ready_def turn_body)

lemma play_events_ready:
  "run_ready g \<Longrightarrow> play_events rs i es g = Return b g' \<or> play_events rs i es g = Fallthrough g'
     \<Longrightarrow> run_ready g'"
proof (induction rs i es g rule: play_events.induct)
  case (3 rs i k es g)
  note a = "3.prems"(1)
  have r: "run_ready (reset_run False (rs i) g)" using a by (rule reset_run_ready)
  have t: "run_ready (g\<lparr>sound := toggle (sound g)\<rparr>)" using a by (simp add: run_ready_def)
  have h: "run_ready (handle_turn_keys k g)" using a by (rule handle_turn_keys_ready)
  have s: "run_ready (g\<lparr>state := x\<rparr>)" for x using a by (simp add: run_ready_def)
  show ?case
    using "3.IH" "3.prems" r t h s by (auto split: if_splits)
qed auto

lemma play_loop_returns:
  assumes a: "run_ready g"
  shows "\<exists>b g'. play_loop fi g = Some (Inr (b, g')) \<and> run_ready g'"
proof (cases "play_events (reset_draws fi) 0 (events fi) g")
  case (Return b g1)
  with a have "run_ready g1" using play_events_ready by blast
  with Return show ?thesis by (simp add: play_loop_def)
next
  case (Fallthrough g1)
  with a have r1: "run_ready g1" using play_events_ready by blast
  let ?g2 = "g1\<lparr>logic_acc := logic_acc g1 + real (tick_ms fi) / 1000\<rparr>"
  have r2: "run_ready ?g2" using r1 by (simp add: run_ready_def)
  have pos: "0 < current_fps g1" using r1 by (simp add: run_ready_def)
  then have sp: "0 < 1 / current_fps g1" by simp
  from drain_returns [OF sp refl r2, where tks = "tick_draws fi" and k = 0]
  obtain g' where "drain (1 / current_fps g1) (tick_draws fi) 0 ?g2 = Some (Inr g')"
    and "run_ready g'" by blast
  with Fallthrough pos show ?thesis by (auto simp: play_loop_def Let_def)
qed

lemma pause_events_ready:
  "run_ready g \<Longrightarrow> pause_events es g = Return b g' \<or> pause_events es g = Fallthrough g'
     \<Longrightarrow> run_ready g'"
proof (induction es g rule: pause_events.induct)
  case (3 k es g)
  note a = "3.prems"(1)
  have t: "run_ready (g\<lparr>sound := toggle (sound g)\<rparr>)" using a by (simp add: run_ready_def)
  have s: "run_ready (g\<lparr>state := x\<rparr>)" for x using a by (simp add: run_ready_def)
  show ?case
    using "3.IH" "3.prems" t s by (auto split: if_splits)
qed auto

lemma gameover_events_ready:
  "run_ready g
     \<Longrightarrow> gameover_events rs i es g = Return b g' \<or> gameover_events rs i es g = Fallthrough g'
     \<Longrightarrow> run_ready g'"
proof (induction rs i es g rule: gameover_events.induct)
  case (3 rs i k es g)
  note a = "3.prems"(1)
  have r: "run_ready ((reset_run False (rs i) g)\<lparr>state := Playing\<rparr>)"
    using reset_run_ready [OF a, of False "rs i"] by (simp add: run_ready_def)
  have s: "run_ready (g\<lparr>state := x\<rparr>)" for x using a by (simp add: run_ready_def)
  show ?case
    using "3.IH" "3.prems" r s by (auto split: if_splits)
qed auto

lemma py_index_in_range:
  "0 \<le> i \<Longrightarrow> i < int (length xs) \<Longrightarrow> py_index xs i = Inr (xs ! nat i)"
  by (simp add: py_index_def)

lemma menu_change_value_ready:
  assumes a: "run_ready g"
  shows "\<exists>g'. menu_change_value fw g = Inr g' \<and> run_ready g'"
proof -
  have i: "py_index menu_items (menu_index g) = Inr (menu_items ! nat (menu_index g))"
    using a by (simp add: run_ready_def py_index_in_range)
  obtain label vals where it: "menu_items ! nat (menu_index g) = (label, vals)"
    by (cases "menu_items ! nat (menu_index g)")
  have b: "0 < BASE_FPS m" for m by (cases m) simp_all
  show ?thesis
    using a b
    by (auto simp: menu_change_value_def i it Let_def run_ready_def)
qed

lemma menu_events_returns:
  "run_ready g \<Longrightarrow>
     \<exists>fl. menu_events rs i es g = Inr fl
        \<and> (\<forall>b g'. fl = Return b g' \<or> fl = Fallthrough g' \<longrightarrow> run_ready g')"
proof (induction rs i es g rule: menu_events.induct)
  case (3 rs i k es g)
  note a = "3.prems"
  have idx: "py_index menu_items (menu_index g) = Inr (menu_items ! nat (menu_index g))"
    using a by (simp add: run_ready_def py_index_in_range)
  obtain label vals where it: "menu_items ! nat (menu_index g) = (label, vals)"
    by (cases "menu_items ! nat (menu_index g)")
  have mi: "run_ready (g\<lparr>menu_index := x mod int (length menu_items)\<rparr>)" for x
    using a by (simp add: run_ready_def menu_items_def)
  have rs: "run_ready ((reset_run True (rs i) g)\<lparr>state := Playing\<rparr>)"
    using reset_run_ready [OF a, of True "rs i"] by (simp add: run_ready_def)
  consider (esc) "k = K_ESCAPE"
    | (up) "k \<noteq> K_ESCAPE" "k = K_UP"
    | (down) "k \<noteq> K_ESCAPE" "k \<noteq> K_UP" "k = K_DOWN"
    | (lr) "k \<noteq> K_ESCAPE" "k \<noteq> K_UP" "k \<noteq> K_DOWN" "k = K_LEFT \<or> k = K_RIGHT"
    | (ret) "k \<noteq> K_ESCAPE" "k \<noteq> K_UP" "k \<noteq> K_DOWN" "\<not> (k = K_LEFT \<or> k = K_RIGHT)"
        "k = K_RETURN \<or> k = K_KP_ENTER"
    | (other) "k \<noteq> K_ESCAPE" "k \<noteq> K_UP" "k \<noteq> K_DOWN" "\<not> (k = K_LEFT \<or> k = K_RIGHT)"
        "\<not> (k = K_RETURN \<or> k = K_KP_ENTER)"
    by blast
  then show ?case
  proof cases
    case esc
    with a show ?thesis by simp
  next
    case up
    from "3.IH"(1) [OF up(1) up(2) mi] up show ?thesis by simp
  next
    case down
    from "3.IH"(2) [OF down(1) down(2) down(3) mi] down show ?thesis by simp
  next
    case lr
    from menu_change_value_ready [OF a, of "k = K_RIGHT"] obtain h
      where h: "menu_change_value (k = K_RIGHT) g = Inr h" and rh: "run_ready h" by blast
    from "3.IH"(3) [OF lr(1) lr(2) lr(3) lr(4) h rh] lr h show ?thesis by simp
  next
    case ret
    show ?thesis
    proof (cases "label = ''Start''")
      case True
      with ret idx it rs show ?thesis by simp
    next
      case False
      show ?thesis
      proof (cases "label = ''Quit''")
        case True
        with False ret idx it a show ?thesis by simp
      next
        case q: False
        have e: "py_index menu_items (menu_index g) = Inr (label, vals)" using idx it by simp
        from "3.IH"(4) [OF ret(1) ret(2) ret(3) ret(4) ret(5) e HOL.refl False q a]
          False q ret e show ?thesis by simp
      qed
    qed
  next
    case other
    from "3.IH"(5) [OF other(1) other(2) other(3) other(4) other(5) a] other show ?thesis by simp
  qed
qed auto

lemma run_iter_returns:
  assumes a: "run_ready g"
  shows "\<exists>b g'. run_iter fi g = Some (Inr (b, g')) \<and> run_ready g'"
proof (cases "state g")
  case Menu
  from menu_events_returns [OF a, of "reset_draws fi" 0 "events fi"] obtain fl
    where m: "menu_events (reset_draws fi) 0 (events fi) g = Inr fl"
      and r: "\<forall>b g'. fl = Return b g' \<or> fl = Fallthrough g' \<longrightarrow> run_ready g'" by blast
  show ?thesis
    using Menu m r by (cases fl) (auto simp: run_iter_def menu_loop_def)
next
  case Playing
  with play_loop_returns [OF a, of fi] show ?thesis by (simp add: run_iter_def)
next
  case Paused
  show ?thesis
    using Paused pause_events_ready [OF a, of "events fi"]
    by (cases "pause_events (events fi) g") (auto simp: run_iter_def pause_loop_def)
next
  case GameOver
  show ?thesis
    using GameOver gameover_events_ready [OF a, of "reset_draws fi" 0 "events fi"]
    by (cases "gameover_events (reset_draws fi) 0 (events fi) g")
      (auto simp: run_iter_def gameover_loop_def)
qed

lemma reachable_ready: "reachable g \<Longrightarrow> run_ready g"
proof (induction rule: reachable.induct)
  case (init m wrap cfg_sound mixer_ok recs r)
  have "0 < BASE_FPS m" by (cases m) simp_all
  then show ?case
    by (simp add: Game_init_def Let_def run_ready_def reset_run_fields Snake_init_def upt_rec
        menu_items_def)
next
  case (frame g fi g')
  with run_iter_returns [of g fi] show ?case by auto
qed

text \<open>
  From a reachable state every pass of the run loop returns: the drain loop ends and
  nothing raises.
\<close>

lemma reachable_run_iter_returns:
  "reachable g \<Longrightarrow> \<exists>b g'. run_iter fi g = Some (Inr (b, g'))"
  using run_iter_returns [OF reachable_ready, of g fi] by blast

end
